theory Spec2Isabelle
  imports Complex_Main "HOL-Library.Signed_Division"
begin

section \<open>Arbitrary-precision integers of the host language\<close>

text \<open>
  The library computes on the host's \<open>bigint\<close>, an unbounded signed integer: it is
  modelled as \<^typ>\<open>int\<close>.  The host's \<open>x / y\<close> truncates toward zero and \<open>x % y\<close>
  takes the sign of \<open>x\<close>; these are \<open>x sdiv y\<close> and \<open>x smod y\<close>.  Both raise a
  RangeError when \<open>y\<close> is zero, and \<open>x ** y\<close> raises one when \<open>y\<close> is negative.
\<close>

record Rational =
  numerator :: int
  denominator :: int

record Decimal =
  digits :: int
  scale :: int

datatype error =
    RangeError_denominator int
  | RangeError_scale int
  | RangeError_divide_by_zero Rational Rational
  | RangeError_bigint_division
  | RangeError_bigint_exponent
  | SyntaxError string

definition bind_result :: "error + 'a \<Rightarrow> ('a \<Rightarrow> error + 'b) \<Rightarrow> error + 'b" where
  "bind_result m f = (case m of Inl e \<Rightarrow> Inl e | Inr x \<Rightarrow> f x)"

definition bigint_div :: "int \<Rightarrow> int \<Rightarrow> error + int" where
  "bigint_div x y = (if y = 0 then Inl RangeError_bigint_division else Inr (x sdiv y))"

definition bigint_rem :: "int \<Rightarrow> int \<Rightarrow> error + int" where
  "bigint_rem x y = (if y = 0 then Inl RangeError_bigint_division else Inr (x smod y))"

definition bigint_pow :: "int \<Rightarrow> int \<Rightarrow> error + int" where
  "bigint_pow x y = (if y < 0 then Inl RangeError_bigint_exponent else Inr (x ^ nat y))"

section \<open>integer.js\<close>

text \<open>
  \<open>Integer(value)\<close> is \<open>BigInt(String(value).trim() || 'NaN')\<close>.  On a \<open>bigint\<close>
  argument the string is its decimal numeral, which is never empty and converts back
  to the same integer; so it is for the length of a string, the only number the
  library passes.
\<close>

definition Integer_bigint :: "int \<Rightarrow> int" where
  "Integer_bigint value = value"

definition max_integer :: "int \<Rightarrow> int \<Rightarrow> int" where
  "max_integer x y = (if x > y then x else y)"

definition min_integer :: "int \<Rightarrow> int \<Rightarrow> int" where
  "min_integer x y = (if x > y then x else y)"

definition abs_integer :: "int \<Rightarrow> int" where
  "abs_integer n = (if n \<ge> 0 then n else - n)"

definition sign_integer :: "int \<Rightarrow> int" where
  "sign_integer n = (if n > 0 then 1 else if n < 0 then - 1 else 0)"

text \<open>
  Euclid's algorithm with the host's remainder.  The guard \<open>y === 0n\<close> comes before
  the only \<open>%\<close>, so the remainder never raises here.
\<close>

function greatestCommonDivisor :: "int \<Rightarrow> int \<Rightarrow> int" where
  "greatestCommonDivisor x y =
     (if y = 0 then x else greatestCommonDivisor y (x smod y))"
  by pat_completeness auto
termination
proof (relation "measure (\<lambda>(x, y). nat \<bar>y\<bar>)")
  show "wf (measure (\<lambda>(x, y). nat \<bar>y\<bar>))"
    by simp
next
  fix x y :: int
  assume "y \<noteq> 0"
  then have "\<bar>x smod y\<bar> < \<bar>y\<bar>"
    by (simp add: signed_modulo_int_def abs_mult abs_mod_less)
  then show "((y, x smod y), (x, y)) \<in> measure (\<lambda>(x, y). nat \<bar>y\<bar>)"
    by simp
qed

declare greatestCommonDivisor.simps [simp del]

definition leastCommonMultiple :: "int \<Rightarrow> int \<Rightarrow> error + int" where
  "leastCommonMultiple x y = bigint_div (x * y) (greatestCommonDivisor x y)"

text \<open>
  \<open>primeFactors\<close> is a generator: trial division from 2, yielding the divisor each
  time it divides.  The model returns the list of the values yielded, in order; the
  loop is a partial function, \<open>None\<close> standing for a loop that never ends.  The
  divisor starts at 2 and only grows, and the dividend is not negative, so \<open>%\<close> and
  \<open>/\<close> never raise in the loop.
\<close>

partial_function (option) primeFactors_loop :: "int \<Rightarrow> int \<Rightarrow> int list option" where
  "primeFactors_loop dividend divisor =
     (if dividend \<ge> 2
      then if dividend smod divisor = 0
           then Option.bind (primeFactors_loop (dividend sdiv divisor) divisor)
                  (\<lambda>yielded. Some (divisor # yielded))
           else primeFactors_loop dividend (divisor + 1)
      else Some [])"

declare primeFactors_loop.simps [code]

definition primeFactors :: "int \<Rightarrow> int list option" where
  "primeFactors dividend =
     primeFactors_loop (if dividend < 0 then - dividend else dividend) 2"

definition distinctPrimeFactors :: "int \<Rightarrow> int set option" where
  "distinctPrimeFactors dividend = map_option set (primeFactors dividend)"

text \<open>
  \<open>isTerminating\<close> reads the factors of the divisor one at a time and returns false at
  the first one missing from the set.  The generator is finite on every integer (this
  is proved below), so reading it as a whole list gives the same result.
\<close>

fun isTerminating_loop :: "int set \<Rightarrow> int list \<Rightarrow> bool" where
  "isTerminating_loop distinct_set [] = True"
| "isTerminating_loop distinct_set (primeFactor # rest) =
     (if primeFactor \<notin> distinct_set then False else isTerminating_loop distinct_set rest)"

definition isTerminating :: "int \<Rightarrow> int \<Rightarrow> bool option" where
  "isTerminating dividend divisor =
     Option.bind (distinctPrimeFactors dividend) (\<lambda>distinct_set.
     Option.bind (primeFactors divisor) (\<lambda>factors.
     Some (isTerminating_loop distinct_set factors)))"

section \<open>The two value classes and their constructors\<close>

text \<open>
  The fields of both classes are private and set by the constructor only, so every
  object satisfies the check of its constructor: these are the class invariants.
\<close>

definition Rational_constructor :: "int \<Rightarrow> int \<Rightarrow> error + Rational" where
  "Rational_constructor n d =
     (let n' = Integer_bigint n; d' = Integer_bigint d
      in if d' \<le> 0 then Inl (RangeError_denominator d)
         else Inr \<lparr>numerator = n', denominator = d'\<rparr>)"

definition Decimal_constructor :: "int \<Rightarrow> int \<Rightarrow> error + Decimal" where
  "Decimal_constructor dg s =
     (let dg' = Integer_bigint dg; s' = Integer_bigint s
      in if s' < 0 then Inl (RangeError_scale s)
         else Inr \<lparr>digits = dg', scale = s'\<rparr>)"

definition Rational_invariant :: "Rational \<Rightarrow> bool" where
  "Rational_invariant r = (denominator r > 0)"

definition Decimal_invariant :: "Decimal \<Rightarrow> bool" where
  "Decimal_invariant a = (scale a \<ge> 0)"

section \<open>Strings of the host language\<close>

text \<open>
  Strings are modelled over ASCII.  \<open>trim\<close> removes white space and line terminators
  at both ends; \<open>BigInt(string)\<close> accepts, between optional white space, an optionally
  signed run of decimal digits or an unsigned run of digits behind one of the prefixes
  \<open>0x\<close>, \<open>0o\<close>, \<open>0b\<close> (in either case), gives zero on the empty string and raises
  a SyntaxError on everything else.
\<close>

definition is_whitespace :: "char \<Rightarrow> bool" where
  "is_whitespace c = (c \<in> {CHR 0x09, CHR 0x0A, CHR 0x0B, CHR 0x0C, CHR 0x0D, CHR 0x20})"

definition trim :: "string \<Rightarrow> string" where
  "trim s = rev (dropWhile is_whitespace (rev (dropWhile is_whitespace s)))"

definition digit_value :: "char \<Rightarrow> nat option" where
  "digit_value c =
     (let n = (of_char c :: nat)
      in if 48 \<le> n \<and> n \<le> 57 then Some (n - 48)
         else if 97 \<le> n \<and> n \<le> 102 then Some (n - 87)
         else if 65 \<le> n \<and> n \<le> 70 then Some (n - 55)
         else None)"

fun parse_digits :: "nat \<Rightarrow> string \<Rightarrow> nat \<Rightarrow> nat option" where
  "parse_digits b [] acc = Some acc"
| "parse_digits b (c # cs) acc =
     (case digit_value c of
        None \<Rightarrow> None
      | Some v \<Rightarrow> if v < b then parse_digits b cs (acc * b + v) else None)"

definition parse_literal :: "nat \<Rightarrow> string \<Rightarrow> string \<Rightarrow> error + int" where
  "parse_literal b ds whole =
     (if ds = [] then Inl (SyntaxError whole)
      else case parse_digits b ds 0 of
             None \<Rightarrow> Inl (SyntaxError whole)
           | Some n \<Rightarrow> Inr (int n))"

definition BigInt_string :: "string \<Rightarrow> error + int" where
  "BigInt_string str =
     (let t = trim str
      in case t of
           [] \<Rightarrow> Inr 0
         | c # cs \<Rightarrow>
             if c = CHR ''-'' then bind_result (parse_literal 10 cs str) (\<lambda>n. Inr (- n))
             else if c = CHR ''+'' then parse_literal 10 cs str
             else if c = CHR ''0'' \<and> cs \<noteq> [] \<and> hd cs \<in> {CHR ''x'', CHR ''X''}
               then parse_literal 16 (tl cs) str
             else if c = CHR ''0'' \<and> cs \<noteq> [] \<and> hd cs \<in> {CHR ''o'', CHR ''O''}
               then parse_literal 8 (tl cs) str
             else if c = CHR ''0'' \<and> cs \<noteq> [] \<and> hd cs \<in> {CHR ''b'', CHR ''B''}
               then parse_literal 2 (tl cs) str
             else parse_literal 10 t str)"

definition Integer_string :: "string \<Rightarrow> error + int" where
  "Integer_string value =
     (let v = (if trim value = [] then ''NaN'' else trim value) in BigInt_string v)"

text \<open>\<open>String(n)\<close> of a \<open>bigint\<close>: its decimal numeral, with a minus sign when negative.\<close>

definition digit_char :: "nat \<Rightarrow> char" where
  "digit_char n = char_of (48 + n)"

fun String_nat :: "nat \<Rightarrow> string" where
  "String_nat n =
     (if n < 10 then [digit_char n] else String_nat (n div 10) @ [digit_char (n mod 10)])"

declare String_nat.simps [simp del]

definition String_bigint :: "int \<Rightarrow> string" where
  "String_bigint n = (if n < 0 then CHR ''-'' # String_nat (nat (- n)) else String_nat (nat n))"

text \<open>\<open>s.split(c)\<close>, \<open>s.indexOf(c)\<close> and \<open>s.replace(c, '')\<close> for a one-character \<open>c\<close>.\<close>

fun split :: "char \<Rightarrow> string \<Rightarrow> string list" where
  "split c [] = [[]]"
| "split c (x # xs) =
     (if x = c then [] # split c xs
      else case split c xs of
             [] \<Rightarrow> [[x]]
           | p # ps \<Rightarrow> (x # p) # ps)"

definition indexOf :: "char \<Rightarrow> string \<Rightarrow> int" where
  "indexOf c s = (if c \<in> set s then int (length (takeWhile (\<lambda>x. x \<noteq> c) s)) else - 1)"

definition remove_first :: "char \<Rightarrow> string \<Rightarrow> string" where
  "remove_first c s = takeWhile (\<lambda>x. x \<noteq> c) s @ drop 1 (dropWhile (\<lambda>x. x \<noteq> c) s)"

section \<open>rational.js\<close>

fun Rational_times_loop :: "int \<Rightarrow> int \<Rightarrow> Rational list \<Rightarrow> error + Rational" where
  "Rational_times_loop n d [] = Rational_constructor n d"
| "Rational_times_loop n d (that # others) =
     Rational_times_loop (n * numerator that) (d * denominator that) others"

definition Rational_times :: "Rational \<Rightarrow> Rational list \<Rightarrow> error + Rational" where
  "Rational_times this others = Rational_times_loop (numerator this) (denominator this) others"

text \<open>
  The message of the division error is built from \<open>new Rational(numerator, denominator)\<close>,
  the dividend accumulated so far, and from the divisor \<open>that\<close>; the error of the model
  carries both values.
\<close>

fun Rational_dividedBy_loop :: "int \<Rightarrow> int \<Rightarrow> Rational list \<Rightarrow> error + Rational" where
  "Rational_dividedBy_loop n d [] = Rational_constructor n d"
| "Rational_dividedBy_loop n d (that # others) =
     (if numerator that > 0
        then Rational_dividedBy_loop (n * denominator that) (d * numerator that) others
      else if numerator that < 0
        then Rational_dividedBy_loop (n * - denominator that) (d * - numerator that) others
      else bind_result (Rational_constructor n d)
             (\<lambda>dividend. Inl (RangeError_divide_by_zero dividend that)))"

definition Rational_dividedBy :: "Rational \<Rightarrow> Rational list \<Rightarrow> error + Rational" where
  "Rational_dividedBy this others =
     Rational_dividedBy_loop (numerator this) (denominator this) others"

definition Rational_simplify :: "Rational \<Rightarrow> error + Rational" where
  "Rational_simplify this =
     (let gcd' = greatestCommonDivisor (numerator this) (denominator this)
      in bind_result (bigint_div (numerator this) gcd') (\<lambda>n.
         bind_result (bigint_div (denominator this) gcd') (\<lambda>d.
         Rational_constructor n d)))"

definition Rational_compare ::
  "Rational \<Rightarrow> Rational \<Rightarrow> (Rational \<Rightarrow> Rational \<Rightarrow> bool) \<Rightarrow> error + bool" where
  "Rational_compare this that predicate =
     bind_result (leastCommonMultiple (denominator this) (denominator that)) (\<lambda>lcm.
     bind_result (bigint_div lcm (denominator this)) (\<lambda>u.
     bind_result (bigint_div lcm (denominator that)) (\<lambda>v.
     bind_result (Rational_constructor u u) (\<lambda>uu.
     bind_result (Rational_times this [uu]) (\<lambda>x.
     bind_result (Rational_constructor v v) (\<lambda>vv.
     bind_result (Rational_times that [vv]) (\<lambda>y.
     Inr (predicate x y))))))))"

definition Rational_equalTo :: "Rational \<Rightarrow> Rational \<Rightarrow> error + bool" where
  "Rational_equalTo this that =
     Rational_compare this that (\<lambda>x y. numerator x = numerator y)"

definition Rational_fromString :: "string \<Rightarrow> error + Rational" where
  "Rational_fromString string =
     (case split CHR ''/'' string of
        [] \<Rightarrow> Inl (SyntaxError ''undefined'')
      | [n] \<Rightarrow>
          bind_result (Integer_string n) (\<lambda>n'.
          bind_result (Integer_string ''1'') (\<lambda>d'.
          Rational_constructor n' d'))
      | n # d # rest \<Rightarrow>
          bind_result (Integer_string n) (\<lambda>n'.
          bind_result (Integer_string d) (\<lambda>d'.
          Rational_constructor n' d')))"

text \<open>
  \<open>toDecimal\<close>: long division.  The limit is \<open>Infinity\<close> (\<open>None\<close>) when
  \<open>isTerminating(10n, denominator)\<close> holds and \<open>Integer(scale)\<close> otherwise.  The two
  divisions before the loop raise on a zero denominator; inside the loop the
  denominator is the same and not zero.  The loop may run forever, so the function
  returns an option around the result.
\<close>

partial_function (option) toDecimal_loop ::
  "int \<Rightarrow> int option \<Rightarrow> int \<Rightarrow> int \<Rightarrow> int \<Rightarrow> int option" where
  "toDecimal_loop den limit dgs remainder s =
     (if remainder \<noteq> 0 \<and> (case limit of None \<Rightarrow> True | Some l \<Rightarrow> s < l)
      then toDecimal_loop den limit
             (dgs * 10 + (remainder * 10) sdiv den) ((remainder * 10) smod den) (s + 1)
      else Some dgs)"

declare toDecimal_loop.simps [code]

definition Rational_toDecimal :: "Rational \<Rightarrow> int \<Rightarrow> (error + Decimal) option" where
  "Rational_toDecimal this sc =
     Option.bind (isTerminating 10 (denominator this)) (\<lambda>terminating.
       let limit = (if terminating then None else Some (Integer_bigint sc))
       in case bigint_div (numerator this) (denominator this) of
            Inl e \<Rightarrow> Some (Inl e)
          | Inr dgs \<Rightarrow>
              (case bigint_rem (numerator this) (denominator this) of
                 Inl e \<Rightarrow> Some (Inl e)
               | Inr remainder \<Rightarrow>
                   Option.bind (toDecimal_loop (denominator this) limit dgs remainder 0)
                     (\<lambda>dgs'. Some (Decimal_constructor dgs' sc))))"

text \<open>The parameter \<open>scale\<close> of \<open>toDecimal\<close> has the default \<open>16n\<close>.\<close>

definition Rational_toDecimal_default :: "Rational \<Rightarrow> (error + Decimal) option" where
  "Rational_toDecimal_default this = Rational_toDecimal this 16"

section \<open>decimal.js\<close>

definition Decimal_toRational :: "Decimal \<Rightarrow> error + Rational" where
  "Decimal_toRational this =
     bind_result (bigint_pow 10 (scale this)) (\<lambda>p. Rational_constructor (digits this) p)"

fun map_result :: "('a \<Rightarrow> error + 'b) \<Rightarrow> 'a list \<Rightarrow> error + 'b list" where
  "map_result f [] = Inr []"
| "map_result f (x # xs) =
     bind_result (f x) (\<lambda>y. bind_result (map_result f xs) (\<lambda>ys. Inr (y # ys)))"

definition Decimal_dividedBy :: "Decimal \<Rightarrow> Decimal list \<Rightarrow> error + Rational" where
  "Decimal_dividedBy this others =
     bind_result (Decimal_toRational this) (\<lambda>r.
     bind_result (map_result Decimal_toRational others) (\<lambda>rs.
     Rational_dividedBy r rs))"

definition Decimal_toScale :: "Decimal \<Rightarrow> int \<Rightarrow> error + Decimal" where
  "Decimal_toScale this sc =
     (let scale' = Integer_bigint sc; difference = scale' - scale this
      in if difference > 0
           then bind_result (bigint_pow 10 difference) (\<lambda>p.
                Decimal_constructor (digits this * p) scale')
         else if difference < 0
           then bind_result (bigint_pow 10 (- difference)) (\<lambda>p.
                bind_result (bigint_div (digits this) p) (\<lambda>q.
                Decimal_constructor q scale'))
         else Inr this)"

definition Decimal_compare ::
  "Decimal \<Rightarrow> Decimal \<Rightarrow> (Decimal \<Rightarrow> Decimal \<Rightarrow> bool) \<Rightarrow> error + bool" where
  "Decimal_compare this that predicate =
     (let sc = max_integer (scale this) (scale that)
      in bind_result (Decimal_toScale this sc) (\<lambda>x.
         bind_result (Decimal_toScale that sc) (\<lambda>y.
         Inr (predicate x y))))"

definition Decimal_equalTo :: "Decimal \<Rightarrow> Decimal \<Rightarrow> error + bool" where
  "Decimal_equalTo this that = Decimal_compare this that (\<lambda>x y. digits x = digits y)"

definition Decimal_fromString :: "string \<Rightarrow> error + Decimal" where
  "Decimal_fromString string =
     (let s = trim string;
          sc = (if CHR ''.'' \<in> set s
                then Integer_bigint (int (length s) - 1 - indexOf CHR ''.'' s) else 0);
          s' = remove_first CHR ''.'' s
      in bind_result (Integer_string s') (\<lambda>dg. Decimal_constructor dg sc))"

text \<open>
  \<open>toString\<close>: the loop moves the last character of the numeral of \<open>digits\<close> (or a
  \<open>0\<close> when none is left) to the front of the result, once for each unit of the
  scale, and puts the point in front when the scale reaches zero.
\<close>

function Decimal_toString_loop :: "string \<Rightarrow> string \<Rightarrow> int \<Rightarrow> string \<times> string" where
  "Decimal_toString_loop string dgs sc =
     (if sc > 0
      then let string1 = (if dgs = [] then CHR ''0'' else last dgs) # string;
               dgs' = butlast dgs;
               sc' = sc - 1;
               string2 = (if sc' = 0 then CHR ''.'' # string1 else string1)
           in Decimal_toString_loop string2 dgs' sc'
      else (string, dgs))"
  by pat_completeness auto
termination
  by (relation "measure (\<lambda>(string, dgs, sc). nat sc)") auto

declare Decimal_toString_loop.simps [simp del]

definition Decimal_toString :: "Decimal \<Rightarrow> string" where
  "Decimal_toString this =
     (case Decimal_toString_loop [] (String_bigint (digits this)) (scale this) of
        (string, dgs) \<Rightarrow>
          (if length dgs = 0 \<or> (length dgs = 1 \<and> dgs ! 0 = CHR ''-'')
           then dgs @ ''0'' else dgs) @ string)"

section \<open>The values denoted\<close>

definition Rational_value :: "Rational \<Rightarrow> rat" where
  "Rational_value r = of_int (numerator r) / of_int (denominator r)"

definition Decimal_value :: "Decimal \<Rightarrow> rat" where
  "Decimal_value a = of_int (digits a) / 10 ^ nat (scale a)"

section \<open>Expressions of the testable properties\<close>

text \<open>
  \<open>Rational(n, d).equalTo(Rational(n*k, d*k))\<close>: both constructions, then the
  comparison.
\<close>

definition equalTo_scaled :: "int \<Rightarrow> int \<Rightarrow> int \<Rightarrow> error + bool" where
  "equalTo_scaled n d k =
     bind_result (Rational_constructor n d) (\<lambda>a.
     bind_result (Rational_constructor (n * k) (d * k)) (\<lambda>b.
     Rational_equalTo a b))"

text \<open>
  \<open>Decimal.fromString("1").dividedBy(Decimal.fromString("3")).equalTo(Rational.fromString("1/3"))\<close>
\<close>

definition one_third_example :: "error + bool" where
  "one_third_example =
     bind_result (Decimal_fromString ''1'') (\<lambda>a.
     bind_result (Decimal_fromString ''3'') (\<lambda>b.
     bind_result (Decimal_dividedBy a [b]) (\<lambda>q.
     bind_result (Rational_fromString ''1/3'') (\<lambda>r.
     Rational_equalTo q r))))"

text \<open>\<open>a.toRational().toDecimal(a.scale).equalTo(a)\<close>\<close>

definition roundtrip :: "Decimal \<Rightarrow> (error + bool) option" where
  "roundtrip a =
     (case Decimal_toRational a of
        Inl e \<Rightarrow> Some (Inl e)
      | Inr r \<Rightarrow>
          Option.bind (Rational_toDecimal r (scale a)) (\<lambda>result.
          Some (bind_result result (\<lambda>d. Decimal_equalTo d a))))"

section \<open>Prime numbers\<close>

definition is_prime :: "int \<Rightarrow> bool" where
  "is_prime p = (2 \<le> p \<and> (\<forall>m\<in>{2..<p}. \<not> m dvd p))"

section \<open>Auxiliary facts\<close>

lemma bind_result_simps [simp]:
  "bind_result (Inl e) f = Inl e"
  "bind_result (Inr x) f = f x"
  by (simp_all add: bind_result_def)

lemma Rational_constructor_pos:
  "0 < d \<Longrightarrow> Rational_constructor n d = Inr \<lparr>numerator = n, denominator = d\<rparr>"
  by (simp add: Rational_constructor_def Integer_bigint_def)

lemma smod_nonneg_pos: "0 \<le> x \<Longrightarrow> 0 < y \<Longrightarrow> x smod y = x mod (y::int)"
  by (simp add: signed_modulo_int_def sgn_if)

lemma sdiv_nonneg_pos: "0 \<le> x \<Longrightarrow> 0 < y \<Longrightarrow> x sdiv y = x div (y::int)"
  by (simp add: signed_divide_int_def sgn_if)

lemma greatestCommonDivisor_nonneg:
  "0 \<le> x \<Longrightarrow> 0 \<le> y \<Longrightarrow> greatestCommonDivisor x y = gcd x y"
proof (induction x y rule: greatestCommonDivisor.induct)
  case (1 x y)
  show ?case
  proof (cases "y = 0")
    case True
    with "1.prems" show ?thesis
      by (simp add: greatestCommonDivisor.simps)
  next
    case False
    with "1.prems" have y: "0 < y" by simp
    have m: "x smod y = x mod y"
      using "1.prems" y by (simp add: smod_nonneg_pos)
    have "greatestCommonDivisor y (x smod y) = gcd y (x smod y)"
      using "1.IH" [OF False] y m by simp
    also have "\<dots> = gcd x y"
      unfolding m by (rule gcd_red_int [symmetric])
    finally show ?thesis
      using False by (simp add: greatestCommonDivisor.simps [of x y])
  qed
qed

lemma Decimal_toRational_invariant:
  "Decimal_invariant a \<Longrightarrow>
   Decimal_toRational a = Inr \<lparr>numerator = digits a, denominator = 10 ^ nat (scale a)\<rparr>"
  by (simp add: Decimal_invariant_def Decimal_toRational_def bigint_pow_def
      Rational_constructor_pos)

section \<open>Integer utilities\<close>

text \<open>
  Claim C2.  The integer utility \<open>min\<close> has the comparison of \<open>max\<close>: on the
  arguments 3 and 5 it returns 5, the larger one.
\<close>

theorem min_integer_3_5: "min_integer 3 5 = 5"
  by (simp add: min_integer_def)

section \<open>Construction\<close>

text \<open>
  Claim C8.  Constructing a Rational fails exactly when the denominator is at most
  zero, and the error carries that denominator; constructing a Decimal fails exactly
  when the scale is negative, and the error carries that scale.  In every other case
  the object holds the two integers given.
\<close>

theorem constructor_fails_iff:
  "((\<exists>e. Rational_constructor n d = Inl e) \<longleftrightarrow> d \<le> 0) \<and>
   (d \<le> 0 \<longleftrightarrow> Rational_constructor n d = Inl (RangeError_denominator d)) \<and>
   (0 < d \<longleftrightarrow> Rational_constructor n d = Inr \<lparr>numerator = n, denominator = d\<rparr>) \<and>
   ((\<exists>e. Decimal_constructor n s = Inl e) \<longleftrightarrow> s < 0) \<and>
   (s < 0 \<longleftrightarrow> Decimal_constructor n s = Inl (RangeError_scale s)) \<and>
   (0 \<le> s \<longleftrightarrow> Decimal_constructor n s = Inr \<lparr>digits = n, scale = s\<rparr>)"
  by (simp add: Rational_constructor_def Decimal_constructor_def Integer_bigint_def)

section \<open>Division of Rationals\<close>

lemma dividedBy_loop_fields:
  "0 < d \<Longrightarrow> \<forall>t\<in>set others. 0 < denominator t \<and> numerator t \<noteq> 0 \<Longrightarrow>
   Rational_dividedBy_loop n d others =
     Inr \<lparr>numerator = n * prod_list (map (\<lambda>t. sgn (numerator t) * denominator t) others),
          denominator = d * prod_list (map (\<lambda>t. \<bar>numerator t\<bar>) others)\<rparr>"
proof (induction others arbitrary: n d)
  case Nil
  then show ?case by (simp add: Rational_constructor_pos)
next
  case (Cons that others)
  from Cons.prems have nt: "numerator that \<noteq> 0"
    and rest: "\<forall>t\<in>set others. 0 < denominator t \<and> numerator t \<noteq> 0"
    by simp_all
  show ?case
  proof (cases "0 < numerator that")
    case True
    with Cons.prems have "0 < d * numerator that" by simp
    from Cons.IH [OF this rest] True show ?thesis
      by (simp add: mult.assoc)
  next
    case False
    with nt have neg: "numerator that < 0" by simp
    with Cons.prems have "0 < d * - numerator that" by (simp add: mult_pos_neg)
    from Cons.IH [OF this rest] neg show ?thesis
      by (simp add: mult.assoc)
  qed
qed

lemma prod_list_abs_pos:
  "\<forall>t\<in>set others. numerator t \<noteq> 0 \<Longrightarrow> 0 < prod_list (map (\<lambda>t. \<bar>numerator t\<bar>) others)"
  by (induction others) simp_all

lemma dividedBy_loop_zero:
  assumes d: "0 < d" and pre: "\<forall>t\<in>set pre. 0 < denominator t \<and> numerator t \<noteq> 0"
    and z: "numerator z = 0"
  shows "Rational_dividedBy_loop n d (pre @ z # post) =
     Inl (RangeError_divide_by_zero
       \<lparr>numerator = n * prod_list (map (\<lambda>t. sgn (numerator t) * denominator t) pre),
        denominator = d * prod_list (map (\<lambda>t. \<bar>numerator t\<bar>) pre)\<rparr> z)"
  using d pre
proof (induction pre arbitrary: n d)
  case Nil
  with z show ?case by (simp add: Rational_constructor_pos)
next
  case (Cons that pre)
  from Cons.prems have nt: "numerator that \<noteq> 0"
    and rest: "\<forall>t\<in>set pre. 0 < denominator t \<and> numerator t \<noteq> 0"
    by simp_all
  show ?case
  proof (cases "0 < numerator that")
    case True
    with Cons.prems have "0 < d * numerator that" by simp
    from Cons.IH [OF this rest] True show ?thesis
      by (simp add: mult.assoc)
  next
    case False
    with nt have neg: "numerator that < 0" by simp
    with Cons.prems have "0 < d * - numerator that" by (simp add: mult_pos_neg)
    from Cons.IH [OF this rest] neg show ?thesis
      by (simp add: mult.assoc)
  qed
qed

lemma quotient_of_products:
  "\<forall>t\<in>set others. 0 < denominator t \<and> numerator t \<noteq> 0 \<Longrightarrow>
   (of_int (prod_list (map (\<lambda>t. sgn (numerator t) * denominator t) others)) :: rat)
     / of_int (prod_list (map (\<lambda>t. \<bar>numerator t\<bar>) others))
   = 1 / prod_list (map Rational_value others)"
proof (induction others)
  case Nil
  then show ?case by simp
next
  case (Cons that others)
  let ?n = "numerator that" and ?d = "denominator that"
  from Cons.prems have nt: "?n \<noteq> 0"
    and rest: "\<forall>t\<in>set others. 0 < denominator t \<and> numerator t \<noteq> 0"
    by simp_all
  have step: "(of_int (sgn ?n * ?d) :: rat) / of_int \<bar>?n\<bar> = 1 / Rational_value that"
  proof (cases "0 < ?n")
    case True
    then show ?thesis by (simp add: Rational_value_def)
  next
    case False
    with nt have "?n < 0" by simp
    then show ?thesis by (simp add: Rational_value_def)
  qed
  have "(of_int (prod_list (map (\<lambda>t. sgn (numerator t) * denominator t) (that # others))) :: rat)
      / of_int (prod_list (map (\<lambda>t. \<bar>numerator t\<bar>) (that # others)))
    = (of_int (sgn ?n * ?d) / of_int \<bar>?n\<bar>)
      * (of_int (prod_list (map (\<lambda>t. sgn (numerator t) * denominator t) others))
         / of_int (prod_list (map (\<lambda>t. \<bar>numerator t\<bar>) others)))"
    by simp
  also have "\<dots> = (1 / Rational_value that) * (1 / prod_list (map Rational_value others))"
    by (simp only: step Cons.IH [OF rest])
  also have "\<dots> = 1 / prod_list (map Rational_value (that # others))"
    by simp
  finally show ?case .
qed

lemma accumulated_value:
  assumes "\<forall>t\<in>set others. 0 < denominator t \<and> numerator t \<noteq> 0"
  shows "Rational_value
     \<lparr>numerator = n * prod_list (map (\<lambda>t. sgn (numerator t) * denominator t) others),
      denominator = d * prod_list (map (\<lambda>t. \<bar>numerator t\<bar>) others)\<rparr>
   = Rational_value \<lparr>numerator = n, denominator = d\<rparr> / prod_list (map Rational_value others)"
proof -
  let ?P = "prod_list (map (\<lambda>t. sgn (numerator t) * denominator t) others)"
  let ?Q = "prod_list (map (\<lambda>t. \<bar>numerator t\<bar>) others)"
  have "(of_int (n * ?P) :: rat) / of_int (d * ?Q)
      = (of_int n / of_int d) * (of_int ?P / of_int ?Q)"
    by simp
  also have "\<dots> = (of_int n / of_int d) * (1 / prod_list (map Rational_value others))"
    by (simp only: quotient_of_products [OF assms])
  finally show ?thesis
    by (simp add: Rational_value_def)
qed


lemma first_zero_split:
  "\<exists>t\<in>set others. numerator t = 0 \<Longrightarrow>
   \<exists>pre z post. others = pre @ z # post \<and> (\<forall>t\<in>set pre. numerator t \<noteq> 0) \<and> numerator z = (0::int)"
  using split_list_first_prop [of others "\<lambda>t. numerator t = 0"] by blast

text \<open>
  Claim C7.  On objects that satisfy the class invariant, \<open>dividedBy\<close> fails exactly
  when some divisor of the argument list has numerator zero.  It then fails at the
  first such divisor, with the division error that carries that divisor and the
  dividend accumulated over the divisors before it: the numerator of the receiver
  times the denominators of those divisors, each with the sign of its numerator, over
  the denominator of the receiver times the absolute numerators, which is the value of
  the receiver divided by the values of those divisors.  When no divisor has numerator
  zero it returns the Rational with these fields over the whole list, which satisfies
  the invariant again.
\<close>

theorem Rational_dividedBy_zero_iff:
  assumes inv_this: "Rational_invariant this"
    and others: "\<forall>t\<in>set others. Rational_invariant t"
  shows "((\<exists>e. Rational_dividedBy this others = Inl e) \<longleftrightarrow> (\<exists>t\<in>set others. numerator t = 0)) \<and>
    (\<forall>pre z post. others = pre @ z # post \<and> (\<forall>t\<in>set pre. numerator t \<noteq> 0) \<and> numerator z = 0 \<longrightarrow>
       (\<exists>dividend. Rational_dividedBy this pre = Inr dividend \<and>
          Rational_dividedBy this others = Inl (RangeError_divide_by_zero dividend z) \<and>
          numerator dividend =
            numerator this * prod_list (map (\<lambda>t. sgn (numerator t) * denominator t) pre) \<and>
          denominator dividend =
            denominator this * prod_list (map (\<lambda>t. \<bar>numerator t\<bar>) pre) \<and>
          Rational_value dividend =
            Rational_value this / prod_list (map Rational_value pre))) \<and>
    ((\<forall>t\<in>set others. numerator t \<noteq> 0) \<longrightarrow>
       (\<exists>q. Rational_dividedBy this others = Inr q \<and> Rational_invariant q \<and>
          numerator q =
            numerator this * prod_list (map (\<lambda>t. sgn (numerator t) * denominator t) others) \<and>
          denominator q =
            denominator this * prod_list (map (\<lambda>t. \<bar>numerator t\<bar>) others) \<and>
          Rational_value q =
            Rational_value this / prod_list (map Rational_value others)))"
proof -
  from inv_this have d: "0 < denominator this"
    by (simp add: Rational_invariant_def)
  from others have inv: "\<forall>t\<in>set others. 0 < denominator t"
    by (simp add: Rational_invariant_def)
  have this_value: "Rational_value \<lparr>numerator = numerator this, denominator = denominator this\<rparr>
      = Rational_value this"
    by (simp add: Rational_value_def)
  have returns: "\<exists>q. Rational_dividedBy this ts = Inr q \<and> Rational_invariant q \<and>
          numerator q =
            numerator this * prod_list (map (\<lambda>t. sgn (numerator t) * denominator t) ts) \<and>
          denominator q =
            denominator this * prod_list (map (\<lambda>t. \<bar>numerator t\<bar>) ts) \<and>
          Rational_value q = Rational_value this / prod_list (map Rational_value ts)"
    if ts: "\<forall>t\<in>set ts. 0 < denominator t \<and> numerator t \<noteq> 0" for ts
  proof -
    let ?q = "\<lparr>numerator =
                 numerator this * prod_list (map (\<lambda>t. sgn (numerator t) * denominator t) ts),
               denominator = denominator this * prod_list (map (\<lambda>t. \<bar>numerator t\<bar>) ts)\<rparr>"
    have run: "Rational_dividedBy this ts = Inr ?q"
      unfolding Rational_dividedBy_def by (rule dividedBy_loop_fields [OF d ts])
    from ts have "0 < prod_list (map (\<lambda>t. \<bar>numerator t\<bar>) ts)"
      by (simp add: prod_list_abs_pos)
    with d have pos: "Rational_invariant ?q"
      by (simp add: Rational_invariant_def)
    have "Rational_value ?q = Rational_value this / prod_list (map Rational_value ts)"
      using accumulated_value [OF ts, of "numerator this" "denominator this"]
      by (simp only: this_value)
    with run pos show ?thesis by simp
  qed
  have zero: "\<exists>dividend. Rational_dividedBy this pre = Inr dividend \<and>
          Rational_dividedBy this others = Inl (RangeError_divide_by_zero dividend z) \<and>
          numerator dividend =
            numerator this * prod_list (map (\<lambda>t. sgn (numerator t) * denominator t) pre) \<and>
          denominator dividend =
            denominator this * prod_list (map (\<lambda>t. \<bar>numerator t\<bar>) pre) \<and>
          Rational_value dividend = Rational_value this / prod_list (map Rational_value pre)"
    if split: "others = pre @ z # post" "\<forall>t\<in>set pre. numerator t \<noteq> 0" "numerator z = 0"
    for pre z post
  proof -
    from split inv have pre: "\<forall>t\<in>set pre. 0 < denominator t \<and> numerator t \<noteq> 0" by simp
    let ?acc = "\<lparr>numerator =
                 numerator this * prod_list (map (\<lambda>t. sgn (numerator t) * denominator t) pre),
               denominator = denominator this * prod_list (map (\<lambda>t. \<bar>numerator t\<bar>) pre)\<rparr>"
    have run: "Rational_dividedBy this pre = Inr ?acc"
      unfolding Rational_dividedBy_def by (rule dividedBy_loop_fields [OF d pre])
    have fail: "Rational_dividedBy this others = Inl (RangeError_divide_by_zero ?acc z)"
      unfolding Rational_dividedBy_def split(1)
      by (rule dividedBy_loop_zero [OF d pre split(3)])
    have "Rational_value ?acc = Rational_value this / prod_list (map Rational_value pre)"
      using accumulated_value [OF pre, of "numerator this" "denominator this"]
      by (simp only: this_value)
    with run fail show ?thesis by simp
  qed
  have nonzero: "\<exists>q. Rational_dividedBy this others = Inr q \<and> Rational_invariant q \<and>
          numerator q =
            numerator this * prod_list (map (\<lambda>t. sgn (numerator t) * denominator t) others) \<and>
          denominator q =
            denominator this * prod_list (map (\<lambda>t. \<bar>numerator t\<bar>) others) \<and>
          Rational_value q = Rational_value this / prod_list (map Rational_value others)"
    if "\<forall>t\<in>set others. numerator t \<noteq> 0"
  proof -
    from that inv have "\<forall>t\<in>set others. 0 < denominator t \<and> numerator t \<noteq> 0" by simp
    then show ?thesis by (rule returns)
  qed
  have iff: "(\<exists>e. Rational_dividedBy this others = Inl e) \<longleftrightarrow> (\<exists>t\<in>set others. numerator t = 0)"
  proof
    assume fails: "\<exists>e. Rational_dividedBy this others = Inl e"
    show "\<exists>t\<in>set others. numerator t = 0"
    proof (rule ccontr)
      assume "\<not> (\<exists>t\<in>set others. numerator t = 0)"
      then have "\<forall>t\<in>set others. numerator t \<noteq> 0" by simp
      from nonzero [OF this] fails show False by auto
    qed
  next
    assume "\<exists>t\<in>set others. numerator t = 0"
    from first_zero_split [OF this] obtain pre z post
      where "others = pre @ z # post" "\<forall>t\<in>set pre. numerator t \<noteq> 0" "numerator z = 0"
      by blast
    from zero [OF this] show "\<exists>e. Rational_dividedBy this others = Inl e" by auto
  qed
  show ?thesis
  proof (intro conjI allI impI)
    show "(\<exists>e. Rational_dividedBy this others = Inl e) \<longleftrightarrow> (\<exists>t\<in>set others. numerator t = 0)"
      by (rule iff)
  next
    fix pre z post
    assume "others = pre @ z # post \<and> (\<forall>t\<in>set pre. numerator t \<noteq> 0) \<and> numerator z = 0"
    then have "others = pre @ z # post" "\<forall>t\<in>set pre. numerator t \<noteq> 0" "numerator z = 0"
      by simp_all
    then show "\<exists>dividend. Rational_dividedBy this pre = Inr dividend \<and>
          Rational_dividedBy this others = Inl (RangeError_divide_by_zero dividend z) \<and>
          numerator dividend =
            numerator this * prod_list (map (\<lambda>t. sgn (numerator t) * denominator t) pre) \<and>
          denominator dividend =
            denominator this * prod_list (map (\<lambda>t. \<bar>numerator t\<bar>) pre) \<and>
          Rational_value dividend = Rational_value this / prod_list (map Rational_value pre)"
      by (rule zero)
  next
    assume "\<forall>t\<in>set others. numerator t \<noteq> 0"
    then show "\<exists>q. Rational_dividedBy this others = Inr q \<and> Rational_invariant q \<and>
          numerator q =
            numerator this * prod_list (map (\<lambda>t. sgn (numerator t) * denominator t) others) \<and>
          denominator q =
            denominator this * prod_list (map (\<lambda>t. \<bar>numerator t\<bar>) others) \<and>
          Rational_value q = Rational_value this / prod_list (map Rational_value others)"
      by (rule nonzero)
  qed
qed

theorem Rational_dividedBy_zero_iff_witness:
  "Rational_invariant \<lparr>numerator = 1, denominator = 2\<rparr> \<and>
   Rational_invariant \<lparr>numerator = 3, denominator = 4\<rparr> \<and>
   Rational_invariant \<lparr>numerator = 0, denominator = 5\<rparr> \<and>
   Rational_dividedBy \<lparr>numerator = 1, denominator = 2\<rparr>
       [\<lparr>numerator = 3, denominator = 4\<rparr>, \<lparr>numerator = 0, denominator = 5\<rparr>]
     = Inl (RangeError_divide_by_zero \<lparr>numerator = 4, denominator = 6\<rparr>
             \<lparr>numerator = 0, denominator = 5\<rparr>) \<and>
   Rational_dividedBy \<lparr>numerator = 1, denominator = 2\<rparr> [\<lparr>numerator = 3, denominator = 4\<rparr>]
     = Inr \<lparr>numerator = 4, denominator = 6\<rparr>"
proof -
  let ?r = "\<lparr>numerator = 1, denominator = 2\<rparr> :: Rational"
  let ?t = "\<lparr>numerator = 3, denominator = 4\<rparr> :: Rational"
  let ?z = "\<lparr>numerator = 0, denominator = 5\<rparr> :: Rational"
  have inv: "Rational_invariant ?r" "Rational_invariant ?t" "Rational_invariant ?z"
    by (simp_all add: Rational_invariant_def)
  then have others: "\<forall>t\<in>set [?t, ?z]. Rational_invariant t"
    by simp
  have "\<forall>pre z post. [?t, ?z] = pre @ z # post \<and> (\<forall>t\<in>set pre. numerator t \<noteq> 0) \<and>
          numerator z = 0 \<longrightarrow>
       (\<exists>dividend. Rational_dividedBy ?r pre = Inr dividend \<and>
          Rational_dividedBy ?r [?t, ?z] = Inl (RangeError_divide_by_zero dividend z) \<and>
          numerator dividend =
            numerator ?r * prod_list (map (\<lambda>t. sgn (numerator t) * denominator t) pre) \<and>
          denominator dividend =
            denominator ?r * prod_list (map (\<lambda>t. \<bar>numerator t\<bar>) pre) \<and>
          Rational_value dividend = Rational_value ?r / prod_list (map Rational_value pre))"
    using Rational_dividedBy_zero_iff [OF inv(1) others] by (elim conjE)
  then have "[?t, ?z] = [?t] @ ?z # [] \<and> (\<forall>t\<in>set [?t]. numerator t \<noteq> 0) \<and>
          numerator ?z = 0 \<longrightarrow>
       (\<exists>dividend. Rational_dividedBy ?r [?t] = Inr dividend \<and>
          Rational_dividedBy ?r [?t, ?z] = Inl (RangeError_divide_by_zero dividend ?z) \<and>
          numerator dividend =
            numerator ?r * prod_list (map (\<lambda>t. sgn (numerator t) * denominator t) [?t]) \<and>
          denominator dividend =
            denominator ?r * prod_list (map (\<lambda>t. \<bar>numerator t\<bar>) [?t]) \<and>
          Rational_value dividend = Rational_value ?r / prod_list (map Rational_value [?t]))"
    by blast
  then obtain dividend
    where run: "Rational_dividedBy ?r [?t] = Inr dividend"
      and fail: "Rational_dividedBy ?r [?t, ?z] = Inl (RangeError_divide_by_zero dividend ?z)"
      and n: "numerator dividend = 4" and d: "denominator dividend = 6"
    by auto
  from n d have "dividend = \<lparr>numerator = 4, denominator = 6\<rparr>"
    by (cases dividend) simp
  with run fail inv show ?thesis by simp
qed

section \<open>Simplification of Rationals\<close>

text \<open>
  Euclid's algorithm with the remainder of the host commutes with a positive factor and
  returns a common divisor.  Hence \<open>simplify\<close> gives the same Rational again when
  applied to its own result, and it returns whenever the numerator is not negative.
\<close>

lemma smod_mult_left: "0 < k \<Longrightarrow> (k * x) smod (k * y) = k * (x smod (y::int))"
  by (simp add: signed_modulo_int_def abs_mult sgn_mult mult.assoc mult.left_commute)

lemma greatestCommonDivisor_scale:
  "0 < k \<Longrightarrow> greatestCommonDivisor (k * x) (k * y) = k * greatestCommonDivisor x y"
proof (induction x y rule: greatestCommonDivisor.induct)
  case (1 x y)
  show ?case
  proof (cases "y = 0")
    case True
    then show ?thesis
      by (simp add: greatestCommonDivisor.simps)
  next
    case False
    with "1.prems" have ky: "k * y \<noteq> 0" by simp
    have "greatestCommonDivisor (k * x) (k * y)
        = greatestCommonDivisor (k * y) ((k * x) smod (k * y))"
      using ky by (subst greatestCommonDivisor.simps) simp
    also have "\<dots> = greatestCommonDivisor (k * y) (k * (x smod y))"
      using "1.prems" by (simp add: smod_mult_left)
    also have "\<dots> = k * greatestCommonDivisor y (x smod y)"
      using "1.IH" [OF False "1.prems"] .
    also have "\<dots> = k * greatestCommonDivisor x y"
      using False by (subst (2) greatestCommonDivisor.simps) simp
    finally show ?thesis .
  qed
qed

lemma greatestCommonDivisor_dvd:
  "greatestCommonDivisor x y dvd x \<and> greatestCommonDivisor x y dvd y"
proof (induction x y rule: greatestCommonDivisor.induct)
  case (1 x y)
  show ?case
  proof (cases "y = 0")
    case True
    then show ?thesis by (simp add: greatestCommonDivisor.simps)
  next
    case False
    let ?g = "greatestCommonDivisor y (x smod y)"
    from "1.IH" [OF False] have gy: "?g dvd y" and gr: "?g dvd x smod y" by simp_all
    have "x = x sdiv y * y + x smod y"
      by (simp add: sdiv_mult_smod_eq)
    moreover from gy gr have "?g dvd x sdiv y * y + x smod y" by simp
    ultimately have "?g dvd x" by simp
    with gy False show ?thesis
      by (subst (1 2) greatestCommonDivisor.simps) simp
  qed
qed

lemma sdiv_mult_cancel: "g \<noteq> 0 \<Longrightarrow> (g * x) sdiv g = (x::int)"
proof -
  assume g: "g \<noteq> 0"
  have q: "\<bar>g * x\<bar> div \<bar>g\<bar> = \<bar>x\<bar>"
    using g by (simp add: abs_mult)
  have "sgn g * sgn g = 1"
    using g by (cases "0 < g") simp_all
  then have s: "sgn (g * x) * sgn g = sgn x"
    by (simp add: sgn_mult mult.commute mult.left_commute)
  have "(g * x) sdiv g = sgn (g * x) * sgn g * (\<bar>g * x\<bar> div \<bar>g\<bar>)"
    by (rule signed_divide_int_def)
  also have "\<dots> = sgn x * \<bar>x\<bar>"
    by (simp only: q s)
  also have "\<dots> = x"
    by (rule sgn_mult_abs)
  finally show ?thesis .
qed

lemma sdiv_one: "x sdiv 1 = (x::int)"
  using sdiv_mult_cancel [of 1 x] by simp

lemma Rational_simplify_idempotent:
  assumes a: "Rational_invariant a" and ok: "Rational_simplify a = Inr b"
  shows "Rational_simplify b = Inr b"
proof -
  let ?n = "numerator a" and ?d = "denominator a"
  define g where "g = greatestCommonDivisor ?n ?d"
  from a have d: "0 < ?d" by (simp add: Rational_invariant_def)
  from greatestCommonDivisor_dvd [of ?n ?d] have gn: "g dvd ?n" and gd: "g dvd ?d"
    by (simp_all add: g_def)
  from gn obtain n' where n': "?n = g * n'" by (rule dvdE)
  from gd obtain d' where d': "?d = g * d'" by (rule dvdE)
  from d d' have g0: "g \<noteq> 0" by auto
  have qn: "?n sdiv g = n'" and qd: "?d sdiv g = d'"
    using g0 by (simp_all add: n' d' sdiv_mult_cancel)
  from ok g0 have b: "b = \<lparr>numerator = n', denominator = d'\<rparr>" and d'pos: "0 < d'"
    by (auto simp: Rational_simplify_def g_def [symmetric] bigint_div_def qn qd
        Rational_constructor_def Integer_bigint_def Let_def split: if_splits)
  from d d' d'pos have gpos: "0 < g"
    by (simp add: zero_less_mult_iff)
  have "g = greatestCommonDivisor ?n ?d"
    by (rule g_def)
  also have "\<dots> = greatestCommonDivisor (g * n') (g * d')"
    by (simp only: n' [symmetric] d' [symmetric])
  also have "\<dots> = g * greatestCommonDivisor n' d'"
    using gpos by (rule greatestCommonDivisor_scale)
  finally have one: "greatestCommonDivisor n' d' = 1"
    using g0 by simp
  show ?thesis
    using d'pos
    by (simp add: Rational_simplify_def b one bigint_div_def sdiv_one
        Rational_constructor_def Integer_bigint_def)
qed

lemma Rational_simplify_nonneg:
  assumes a: "Rational_invariant a" and n: "0 \<le> numerator a"
  shows "\<exists>b. Rational_simplify a = Inr b"
proof -
  let ?n = "numerator a" and ?d = "denominator a"
  from a have d: "0 < ?d" by (simp add: Rational_invariant_def)
  have g: "greatestCommonDivisor ?n ?d = gcd ?n ?d"
    using n d by (simp add: greatestCommonDivisor_nonneg)
  have gpos: "0 < gcd ?n ?d"
    using d by (simp add: gcd_pos_int)
  have "?d sdiv gcd ?n ?d = ?d div gcd ?n ?d"
    using d gpos by (simp add: sdiv_nonneg_pos)
  moreover have "0 < ?d div gcd ?n ?d"
    using d gpos by (simp add: pos_imp_zdiv_pos_iff zdvd_imp_le)
  ultimately show ?thesis
    using gpos d
    by (simp add: Rational_simplify_def g bigint_div_def Rational_constructor_def
        Integer_bigint_def Let_def)
qed

text \<open>
  Claim C3.  \<open>simplify\<close> does not succeed on every Rational.  The remainder of the
  host takes the sign of its first operand, so Euclid's algorithm returns \<open>-2\<close> on
  \<open>-6\<close> and \<open>4\<close>; dividing both fields by it gives the denominator \<open>-2\<close>, which
  the constructor rejects.
\<close>

theorem Rational_simplify_negative_fails:
  "greatestCommonDivisor (- 6) 4 = - 2 \<and>
   bind_result (Rational_constructor (- 6) 4) Rational_simplify
     = Inl (RangeError_denominator (- 2))"
  by code_simp

section \<open>Equality of Rationals\<close>

lemma leastCommonMultiple_scaled:
  assumes d: "0 < d" and k: "0 < k"
  shows "leastCommonMultiple d (d * k) = Inr (d * k)"
proof -
  have dk: "0 < d * k" using d k by simp
  have g: "greatestCommonDivisor d (d * k) = d"
    using d dk by (simp add: greatestCommonDivisor_nonneg)
  have "(d * (d * k)) sdiv d = (d * (d * k)) div d"
    using d dk by (simp add: sdiv_nonneg_pos)
  also have "\<dots> = d * k"
    using d by simp
  finally show ?thesis
    using d by (simp add: leastCommonMultiple_def g bigint_div_def)
qed

text \<open>
  Claim C5, for a negative factor.  \<open>Rational(1 * -1, 2 * -1)\<close> has the denominator
  \<open>-2\<close>: its construction fails, and no comparison takes place.
\<close>

theorem equalTo_scaled_negative_fails:
  "equalTo_scaled 1 2 (- 1) = Inl (RangeError_denominator (- 2)) \<and>
   equalTo_scaled 1 2 (- 1) \<noteq> Inr True"
  by (simp add: equalTo_scaled_def Rational_constructor_def Integer_bigint_def)

text \<open>
  Claim C5, amended.  For every integer \<open>n\<close>, every denominator \<open>d > 0\<close> and every
  factor \<open>k > 0\<close>, \<open>Rational(n, d).equalTo(Rational(n*k, d*k))\<close> is true.
\<close>

theorem equalTo_scaled_positive:
  assumes d: "0 < d" and k: "0 < k"
  shows "equalTo_scaled n d k = Inr True"
proof -
  have dk: "0 < d * k" using d k by simp
  have u: "bigint_div (d * k) d = Inr k"
    using d k by (simp add: bigint_div_def sdiv_nonneg_pos)
  have v: "bigint_div (d * k) (d * k) = Inr 1"
    using d k dk by (simp add: bigint_div_def sdiv_nonneg_pos)
  have x: "Rational_times \<lparr>numerator = n, denominator = d\<rparr> [\<lparr>numerator = k, denominator = k\<rparr>]
      = Inr \<lparr>numerator = n * k, denominator = d * k\<rparr>"
    using dk by (simp add: Rational_times_def Rational_constructor_pos)
  have y: "Rational_times \<lparr>numerator = n * k, denominator = d * k\<rparr> [\<lparr>numerator = 1, denominator = 1\<rparr>]
      = Inr \<lparr>numerator = n * k, denominator = d * k\<rparr>"
    using dk by (simp add: Rational_times_def Rational_constructor_pos)
  show ?thesis
    using d k dk
    by (simp add: equalTo_scaled_def Rational_constructor_pos Rational_equalTo_def
        Rational_compare_def leastCommonMultiple_scaled u v x y)
qed

theorem equalTo_scaled_positive_witness:
  "(0::int) < 4 \<and> (0::int) < 3 \<and> equalTo_scaled 2 4 3 = Inr True"
  using equalTo_scaled_positive [of 4 3 2] by simp

section \<open>Division of Decimals\<close>

lemma one_third_example_true: "one_third_example = Inr True"
  by code_simp

text \<open>
  Claim C6.  For Decimals \<open>a\<close> and \<open>b\<close> with \<open>b\<close> not zero, \<open>a.dividedBy(b)\<close>
  returns a Rational whose value is the quotient of the two values, and it is the
  Rational division of the two conversions by \<open>toRational\<close>.  The quotient of the
  literals 1 and 3 compares equal to the Rational literal 1/3.
\<close>

theorem Decimal_dividedBy_exact:
  assumes a: "Decimal_invariant a" and b: "Decimal_invariant b" and nz: "digits b \<noteq> 0"
  shows "(\<exists>q. Decimal_dividedBy a [b] = Inr q \<and> Rational_invariant q \<and>
            Rational_value q = Decimal_value a / Decimal_value b) \<and>
         Decimal_dividedBy a [b] =
           bind_result (Decimal_toRational a) (\<lambda>x.
           bind_result (Decimal_toRational b) (\<lambda>y. Rational_dividedBy x [y])) \<and>
         one_third_example = Inr True"
proof -
  let ?pa = "(10::int) ^ nat (scale a)" and ?pb = "(10::int) ^ nat (scale b)"
  have pa: "0 < ?pa" and pb: "0 < ?pb" by simp_all
  have deleg: "Decimal_dividedBy a [b] =
           bind_result (Decimal_toRational a) (\<lambda>x.
           bind_result (Decimal_toRational b) (\<lambda>y. Rational_dividedBy x [y]))"
    by (cases "Decimal_toRational a"; cases "Decimal_toRational b")
       (simp_all add: Decimal_dividedBy_def)
  have quot: "\<exists>q. Decimal_dividedBy a [b] = Inr q \<and> Rational_invariant q \<and>
            Rational_value q = Decimal_value a / Decimal_value b"
  proof (cases "0 < digits b")
    case True
    then have "0 < ?pa * digits b" by simp
    then show ?thesis
      using True
      by (simp add: deleg Decimal_toRational_invariant [OF a] Decimal_toRational_invariant [OF b]
          Rational_dividedBy_def Rational_constructor_pos Rational_invariant_def
          Rational_value_def Decimal_value_def)
  next
    case False
    with nz have neg: "digits b < 0" by simp
    then have "0 < ?pa * - digits b" by (simp add: mult_pos_neg)
    then show ?thesis
      using neg
      by (simp add: deleg Decimal_toRational_invariant [OF a] Decimal_toRational_invariant [OF b]
          Rational_dividedBy_def Rational_constructor_pos Rational_invariant_def
          Rational_value_def Decimal_value_def)
  qed
  from quot deleg one_third_example_true show ?thesis by blast
qed

theorem Decimal_dividedBy_exact_witness:
  "Decimal_invariant \<lparr>digits = 1, scale = 0\<rparr> \<and>
   Decimal_invariant \<lparr>digits = 3, scale = 0\<rparr> \<and>
   digits \<lparr>digits = 3, scale = 0\<rparr> \<noteq> 0 \<and>
   (\<exists>q. Decimal_dividedBy \<lparr>digits = 1, scale = 0\<rparr> [\<lparr>digits = 3, scale = 0\<rparr>] = Inr q \<and>
        Rational_value q = 1 / 3)"
proof -
  let ?a = "\<lparr>digits = 1, scale = 0\<rparr>" and ?b = "\<lparr>digits = 3, scale = 0\<rparr>"
  have a: "Decimal_invariant ?a" and b: "Decimal_invariant ?b" and nz: "digits ?b \<noteq> 0"
    by (simp_all add: Decimal_invariant_def)
  from Decimal_dividedBy_exact [OF a b nz]
  have "\<exists>q. Decimal_dividedBy ?a [?b] = Inr q \<and> Rational_invariant q \<and>
            Rational_value q = Decimal_value ?a / Decimal_value ?b"
    by (rule conjunct1)
  then have "\<exists>q. Decimal_dividedBy ?a [?b] = Inr q \<and> Rational_value q = 1 / 3"
    by (auto simp: Decimal_value_def)
  with a b nz show ?thesis by blast
qed

section \<open>Prime factors by trial division\<close>

lemma is_primeI:
  assumes "2 \<le> p" and "\<And>m. 2 \<le> m \<Longrightarrow> m < p \<Longrightarrow> \<not> m dvd p"
  shows "is_prime p"
  using assms by (simp add: is_prime_def)

lemma is_prime_ge_2: "is_prime p \<Longrightarrow> 2 \<le> p"
  by (simp add: is_prime_def)

lemma is_prime_divisor:
  assumes p: "is_prime p" and m: "m dvd p" and pos: "0 < m"
  shows "m = 1 \<or> m = p"
proof (rule ccontr)
  assume neither: "\<not> (m = 1 \<or> m = p)"
  from p have p2: "2 \<le> p" by (rule is_prime_ge_2)
  from m p2 have "m \<le> p" by (simp add: zdvd_imp_le)
  with neither pos have "m \<in> {2..<p}" by simp
  with p m show False by (simp add: is_prime_def)
qed

lemma is_prime_coprime:
  assumes p: "is_prime p" and a: "\<not> p dvd a"
  shows "coprime p a"
proof (rule coprimeI)
  fix c assume cp: "c dvd p" and ca: "c dvd a"
  from p have p2: "2 \<le> p" by (rule is_prime_ge_2)
  from cp p2 have c0: "c \<noteq> 0" by auto
  from cp have "\<bar>c\<bar> dvd p" by simp
  from is_prime_divisor [OF p this] c0 have "\<bar>c\<bar> = 1 \<or> \<bar>c\<bar> = p" by simp
  moreover have "\<bar>c\<bar> \<noteq> p"
  proof
    assume "\<bar>c\<bar> = p"
    with ca have "p dvd a" by (metis abs_dvd_iff)
    with a show False ..
  qed
  ultimately show "is_unit c" by simp
qed

lemma is_prime_dvd_mult:
  assumes p: "is_prime p" and d: "p dvd a * b"
  shows "p dvd a \<or> p dvd b"
proof (cases "p dvd a")
  case True
  then show ?thesis ..
next
  case False
  from is_prime_coprime [OF p False] d have "p dvd b"
    by (simp add: coprime_dvd_mult_right_iff)
  then show ?thesis ..
qed

lemma is_prime_dvd_prod_list:
  assumes p: "is_prime p"
  shows "p dvd prod_list fs \<Longrightarrow> \<exists>q\<in>set fs. p dvd q"
proof (induction fs)
  case Nil
  with is_prime_ge_2 [OF p] show ?case by simp
next
  case (Cons f fs)
  from Cons.prems have "p dvd f * prod_list fs" by simp
  from is_prime_dvd_mult [OF p this] Cons.IH show ?case by auto
qed

lemma is_prime_dvd_is_prime:
  assumes p: "is_prime p" and q: "is_prime q" and d: "p dvd q"
  shows "p = q"
proof -
  from is_prime_ge_2 [OF p] have "0 < p" "p \<noteq> 1" by simp_all
  with is_prime_divisor [OF q d] show ?thesis by simp
qed

lemma dvd_prod_list: "(q::int) \<in> set fs \<Longrightarrow> q dvd prod_list fs"
  by (induction fs) auto

lemma set_prime_factorisation:
  assumes prod: "prod_list fs = n" and primes: "\<forall>q\<in>set fs. is_prime q"
  shows "set fs = {p. is_prime p \<and> p dvd n}"
proof (intro set_eqI iffI)
  fix p assume "p \<in> set fs"
  with primes dvd_prod_list [of p fs] prod show "p \<in> {p. is_prime p \<and> p dvd n}"
    by simp
next
  fix p assume "p \<in> {p. is_prime p \<and> p dvd n}"
  then have p: "is_prime p" and "p dvd prod_list fs" using prod by simp_all
  from is_prime_dvd_prod_list [OF this] obtain q where q: "q \<in> set fs" "p dvd q" by blast
  with primes have "is_prime q" by simp
  from is_prime_dvd_is_prime [OF p this q(2)] q(1) show "p \<in> set fs" by simp
qed

lemma primeFactors_loop_correct:
  assumes "2 \<le> k" and "1 \<le> m" and "\<forall>j. 2 \<le> j \<and> j < k \<longrightarrow> \<not> j dvd m"
  shows "\<exists>fs. primeFactors_loop m k = Some fs \<and> prod_list fs = m \<and> (\<forall>q\<in>set fs. is_prime q)"
  using assms
proof (induction "nat (2 * m - k)" arbitrary: m k rule: less_induct)
  case less
  note k2 = \<open>2 \<le> k\<close> and m1 = \<open>1 \<le> m\<close> and small = \<open>\<forall>j. 2 \<le> j \<and> j < k \<longrightarrow> \<not> j dvd m\<close>
  show ?case
  proof (cases "2 \<le> m")
    case False
    with m1 have "m = 1" by simp
    then show ?thesis
      by (subst primeFactors_loop.simps) simp
  next
    case True
    from small True have km: "k \<le> m"
      by (metis dvd_refl not_le)
    have mod: "m smod k = m mod k" and div: "m sdiv k = m div k"
      using k2 m1 by (simp_all add: smod_nonneg_pos sdiv_nonneg_pos)
    show ?thesis
    proof (cases "k dvd m")
      case dvd: True
      define m' where "m' = m div k"
      from dvd have m: "m = k * m'" by (simp add: m'_def)
      have m'1: "1 \<le> m'"
      proof (rule ccontr)
        assume "\<not> 1 \<le> m'"
        then have "m' \<le> 0" by simp
        with k2 have "k * m' \<le> 0" by (simp add: mult_nonneg_nonpos)
        with m True show False by simp
      qed
      have "2 * m' \<le> k * m'"
        using k2 m'1 by (intro mult_right_mono) simp_all
      with m m'1 have less_m: "m' < m" by simp
      have small': "\<forall>j. 2 \<le> j \<and> j < k \<longrightarrow> \<not> j dvd m'"
      proof (intro allI impI)
        fix j assume "2 \<le> j \<and> j < k"
        with small have "\<not> j dvd m" by simp
        moreover have "j dvd m" if "j dvd m'"
          using that by (subst m) (rule dvd_mult)
        ultimately show "\<not> j dvd m'" by blast
      qed
      have "nat (2 * m' - k) < nat (2 * m - k)"
        using less_m km True by simp
      from less.hyps [OF this k2 m'1 small'] obtain fs
        where fs: "primeFactors_loop m' k = Some fs" "prod_list fs = m'" "\<forall>q\<in>set fs. is_prime q"
        by blast
      have prime_k: "is_prime k"
      proof (rule is_primeI [OF k2])
        fix j assume "2 \<le> j" "j < k"
        with small have "\<not> j dvd m" by simp
        with dvd show "\<not> j dvd k" by (metis dvd_trans)
      qed
      have "primeFactors_loop m k = Some (k # fs)"
        using True dvd fs(1) by (subst primeFactors_loop.simps) (simp add: mod div m'_def)
      with fs m prime_k show ?thesis by simp
    next
      case ndvd: False
      have small': "\<forall>j. 2 \<le> j \<and> j < k + 1 \<longrightarrow> \<not> j dvd m"
      proof (intro allI impI)
        fix j assume "2 \<le> j \<and> j < k + 1"
        then have "j < k \<or> j = k" and "2 \<le> j" by auto
        with small ndvd show "\<not> j dvd m" by auto
      qed
      have k2': "2 \<le> k + 1" using k2 by simp
      have "nat (2 * m - (k + 1)) < nat (2 * m - k)"
        using km True by simp
      from less.hyps [OF this k2' m1 small'] obtain fs
        where fs: "primeFactors_loop m (k + 1) = Some fs" "prod_list fs = m" "\<forall>q\<in>set fs. is_prime q"
        by blast
      have "primeFactors_loop m k = Some fs"
        using True ndvd fs(1) by (subst primeFactors_loop.simps) (simp add: mod dvd_eq_mod_eq_0)
      with fs show ?thesis by simp
    qed
  qed
qed

lemma primeFactors_positive:
  assumes "0 < n"
  shows "\<exists>fs. primeFactors n = Some fs \<and> prod_list fs = n \<and> set fs = {p. is_prime p \<and> p dvd n}"
proof -
  from assms have "1 \<le> n" by simp
  moreover have "\<forall>j::int. 2 \<le> j \<and> j < 2 \<longrightarrow> \<not> j dvd n" by auto
  ultimately obtain fs
    where fs: "primeFactors_loop n 2 = Some fs" "prod_list fs = n" "\<forall>q\<in>set fs. is_prime q"
    using primeFactors_loop_correct [of 2 n] by auto
  from set_prime_factorisation [OF fs(2) fs(3)] fs assms show ?thesis
    by (simp add: primeFactors_def)
qed

lemma primeFactors_total: "\<exists>fs. primeFactors n = Some fs"
proof (cases "n = 0")
  case True
  then show ?thesis
    by (simp add: primeFactors_def primeFactors_loop.simps [of 0])
next
  case False
  then have "0 < \<bar>n\<bar>" by simp
  from primeFactors_positive [OF this] have "\<exists>fs. primeFactors \<bar>n\<bar> = Some fs" by blast
  then show ?thesis
    by (simp add: primeFactors_def abs_if split: if_splits)
qed

lemma isTerminating_loop_subset: "isTerminating_loop D fs \<longleftrightarrow> set fs \<subseteq> D"
  by (induction fs) auto

text \<open>
  Claim C9.  For positive integers \<open>dividend\<close> and \<open>divisor\<close>, \<open>isTerminating\<close>
  returns, and it returns true exactly when every prime that divides the divisor
  divides the dividend.  The set of distinct prime factors computed for each of the two
  is the set of the primes that divide it, and the result is the inclusion of the
  divisor's set in the dividend's.
\<close>

theorem isTerminating_iff:
  assumes dividend: "0 < dividend" and divisor: "0 < divisor"
  shows "isTerminating dividend divisor
           = Some (\<forall>p. is_prime p \<and> p dvd divisor \<longrightarrow> p dvd dividend) \<and>
         distinctPrimeFactors dividend = Some {p. is_prime p \<and> p dvd dividend} \<and>
         distinctPrimeFactors divisor = Some {p. is_prime p \<and> p dvd divisor} \<and>
         isTerminating dividend divisor
           = Some ({p. is_prime p \<and> p dvd divisor} \<subseteq> {p. is_prime p \<and> p dvd dividend})"
proof -
  from primeFactors_positive [OF dividend] obtain ds
    where ds: "primeFactors dividend = Some ds" "set ds = {p. is_prime p \<and> p dvd dividend}"
    by blast
  from primeFactors_positive [OF divisor] obtain es
    where es: "primeFactors divisor = Some es" "set es = {p. is_prime p \<and> p dvd divisor}"
    by blast
  have run: "isTerminating dividend divisor = Some (set es \<subseteq> set ds)"
    by (simp add: isTerminating_def distinctPrimeFactors_def ds(1) es(1)
        isTerminating_loop_subset)
  have "(set es \<subseteq> set ds) = (\<forall>p. is_prime p \<and> p dvd divisor \<longrightarrow> p dvd dividend)"
    unfolding ds(2) es(2) by blast
  with run have "isTerminating dividend divisor
           = Some (\<forall>p. is_prime p \<and> p dvd divisor \<longrightarrow> p dvd dividend)"
    by simp
  moreover have "distinctPrimeFactors dividend = Some {p. is_prime p \<and> p dvd dividend}"
    by (simp add: distinctPrimeFactors_def ds)
  moreover have "distinctPrimeFactors divisor = Some {p. is_prime p \<and> p dvd divisor}"
    by (simp add: distinctPrimeFactors_def es)
  moreover from run have "isTerminating dividend divisor
           = Some ({p. is_prime p \<and> p dvd divisor} \<subseteq> {p. is_prime p \<and> p dvd dividend})"
    by (simp add: ds(2) es(2))
  ultimately show ?thesis by blast
qed

lemma isTerminating_10_8: "isTerminating 10 8 = Some True"
  by code_simp

lemma isTerminating_10_6: "isTerminating 10 6 = Some False"
  by code_simp

theorem isTerminating_iff_witness:
  "(0::int) < 10 \<and> (0::int) < 8 \<and> (0::int) < 6 \<and>
   isTerminating 10 8 = Some True \<and>
   {p. is_prime p \<and> p dvd 8} \<subseteq> {p. is_prime p \<and> p dvd 10} \<and>
   isTerminating 10 6 = Some False \<and>
   \<not> {p. is_prime p \<and> p dvd 6} \<subseteq> {p. is_prime p \<and> p dvd 10}"
proof -
  have pos: "(0::int) < 10" "(0::int) < 8" "(0::int) < 6" by simp_all
  have "isTerminating 10 8
      = Some ({p. is_prime p \<and> p dvd 8} \<subseteq> {p. is_prime p \<and> p dvd 10})"
    using isTerminating_iff [OF pos(1) pos(2)] by (elim conjE)
  then have yes: "{p. is_prime p \<and> p dvd 8} \<subseteq> {p. is_prime p \<and> p dvd 10}"
    unfolding isTerminating_10_8 by simp
  have "isTerminating 10 6
      = Some ({p. is_prime p \<and> p dvd 6} \<subseteq> {p. is_prime p \<and> p dvd 10})"
    using isTerminating_iff [OF pos(1) pos(3)] by (elim conjE)
  then have no: "\<not> {p. is_prime p \<and> p dvd 6} \<subseteq> {p. is_prime p \<and> p dvd 10}"
    unfolding isTerminating_10_6 by simp
  from pos yes no isTerminating_10_8 isTerminating_10_6 show ?thesis by blast
qed

section \<open>Conversion of a Rational to a Decimal\<close>

lemma smod_abs_less: "y \<noteq> 0 \<Longrightarrow> \<bar>x smod y\<bar> < \<bar>y::int\<bar>"
  by (simp add: signed_modulo_int_def abs_mult abs_mod_less)

lemma toDecimal_loop_unbounded:
  assumes den: "0 < den"
  shows "\<bar>remainder\<bar> < den \<Longrightarrow> den dvd remainder * 10 ^ m \<Longrightarrow>
    \<exists>r. toDecimal_loop den None dgs remainder s = Some r"
proof (induction m arbitrary: dgs remainder s)
  case 0
  then have "den dvd remainder" by simp
  with 0 den have "remainder = 0"
    by (metis abs_of_pos dvd_imp_le_int not_le)
  then show ?case
    by (subst toDecimal_loop.simps) simp
next
  case (Suc m)
  show ?case
  proof (cases "remainder = 0")
    case True
    then show ?thesis
      by (subst toDecimal_loop.simps) simp
  next
    case False
    let ?q = "(remainder * 10) sdiv den" and ?r = "(remainder * 10) smod den"
    have bound: "\<bar>?r\<bar> < den"
      using smod_abs_less [of den "remainder * 10"] den by simp
    have "?q * den + ?r = remainder * 10"
      by (rule sdiv_mult_smod_eq)
    then have "?r = remainder * 10 - ?q * den"
      by simp
    then have "?r * 10 ^ m = (remainder * 10 - ?q * den) * 10 ^ m"
      by simp
    also have "\<dots> = remainder * 10 ^ Suc m - (?q * 10 ^ m) * den"
      by (simp add: algebra_simps)
    finally have "?r * 10 ^ m = remainder * 10 ^ Suc m - (?q * 10 ^ m) * den" .
    moreover have "den dvd remainder * 10 ^ Suc m - (?q * 10 ^ m) * den"
      using Suc.prems(2) by (intro dvd_diff) simp_all
    ultimately have "den dvd ?r * 10 ^ m"
      by simp
    from Suc.IH [OF bound this] obtain r
      where "toDecimal_loop den None (dgs * 10 + ?q) ?r (s + 1) = Some r"
      by blast
    with False show ?thesis
      by (subst toDecimal_loop.simps) simp
  qed
qed

lemma toDecimal_loop_bounded:
  "\<exists>r. toDecimal_loop den (Some l) dgs remainder s = Some r"
proof (induction "nat (l - s)" arbitrary: dgs remainder s rule: less_induct)
  case less
  show ?case
  proof (cases "remainder \<noteq> 0 \<and> s < l")
    case True
    then have "nat (l - (s + 1)) < nat (l - s)" by simp
    from less.hyps [OF this] obtain r
      where "toDecimal_loop den (Some l)
               (dgs * 10 + (remainder * 10) sdiv den) ((remainder * 10) smod den) (s + 1) = Some r"
      by blast
    with True show ?thesis
      by (subst toDecimal_loop.simps) simp
  next
    case False
    then show ?thesis
      by (subst toDecimal_loop.simps) auto
  qed
qed

lemma primeFactors_10: "primeFactors 10 = Some [2, 5]"
  by code_simp

lemma prod_list_dvd_power:
  "\<forall>q\<in>set fs. q dvd (b::int) \<Longrightarrow> prod_list fs dvd b ^ length fs"
  by (induction fs) (simp_all add: mult_dvd_mono)

lemma isTerminating_10_dvd:
  assumes d: "0 < d" and t: "isTerminating 10 d = Some True"
  shows "\<exists>k. d dvd 10 ^ k"
proof -
  from primeFactors_positive [OF d] obtain fs
    where fs: "primeFactors d = Some fs" "prod_list fs = d"
    by blast
  from t have "set fs \<subseteq> {2, 5}"
    by (simp add: isTerminating_def distinctPrimeFactors_def primeFactors_10 fs(1)
        isTerminating_loop_subset)
  then have "\<forall>q\<in>set fs. q dvd 10" by auto
  from prod_list_dvd_power [OF this] fs(2) show ?thesis by blast
qed

lemma isTerminating_total: "\<exists>b. isTerminating x y = Some b"
proof -
  from primeFactors_total obtain xs where "primeFactors x = Some xs" by blast
  moreover from primeFactors_total obtain ys where "primeFactors y = Some ys" by blast
  ultimately show ?thesis
    by (simp add: isTerminating_def distinctPrimeFactors_def)
qed

lemma Decimal_constructor_nonneg:
  "0 \<le> s \<Longrightarrow> Decimal_constructor dg s = Inr \<lparr>digits = dg, scale = s\<rparr>"
  by (simp add: Decimal_constructor_def Integer_bigint_def)

text \<open>
  Claim C10.  For a Rational \<open>r\<close> and a scale \<open>s \<ge> 0\<close>, \<open>r.toDecimal(s)\<close> returns
  (the long division ends, also without a limit), it returns a Decimal, and the scale
  of that Decimal is \<open>s\<close>, whatever the number of steps the division took.  With
  the default scale, \<open>Rational(1, 2).toDecimal()\<close> is the Decimal with digits 5 and
  scale 16.
\<close>

theorem Rational_toDecimal_scale:
  assumes r: "Rational_invariant r" and s: "0 \<le> s"
  shows "(\<exists>d. Rational_toDecimal r s = Some (Inr d) \<and> scale d = s) \<and>
         Rational_toDecimal_default \<lparr>numerator = 1, denominator = 2\<rparr>
           = Some (Inr \<lparr>digits = 5, scale = 16\<rparr>)"
proof -
  let ?n = "numerator r" and ?d = "denominator r"
  from r have d: "0 < ?d" by (simp add: Rational_invariant_def)
  from isTerminating_total obtain b where b: "isTerminating 10 ?d = Some b" by blast
  define limit where "limit = (if b then None else Some (Integer_bigint s))"
  have bound: "\<bar>?n smod ?d\<bar> < ?d"
    using smod_abs_less [of ?d ?n] d by simp
  have "\<exists>dgs. toDecimal_loop ?d limit (?n sdiv ?d) (?n smod ?d) 0 = Some dgs"
  proof (cases b)
    case True
    with b have "isTerminating 10 ?d = Some True" by simp
    from isTerminating_10_dvd [OF d this] obtain k where "?d dvd 10 ^ k" ..
    then have "?d dvd (?n smod ?d) * 10 ^ k" by simp
    from toDecimal_loop_unbounded [OF d bound this] True show ?thesis
      by (simp add: limit_def)
  next
    case False
    with toDecimal_loop_bounded show ?thesis
      by (simp add: limit_def)
  qed
  then obtain dgs where "toDecimal_loop ?d limit (?n sdiv ?d) (?n smod ?d) 0 = Some dgs"
    by blast
  with d b s have "Rational_toDecimal r s = Some (Inr \<lparr>digits = dgs, scale = s\<rparr>)"
    by (simp add: Rational_toDecimal_def bigint_div_def bigint_rem_def limit_def
        Decimal_constructor_nonneg)
  moreover have "Rational_toDecimal_default \<lparr>numerator = 1, denominator = 2\<rparr>
           = Some (Inr \<lparr>digits = 5, scale = 16\<rparr>)"
    by code_simp
  ultimately show ?thesis by simp
qed

theorem Rational_toDecimal_scale_witness:
  "Rational_invariant \<lparr>numerator = 1, denominator = 8\<rparr> \<and> (0::int) \<le> 1 \<and>
   Rational_toDecimal \<lparr>numerator = 1, denominator = 8\<rparr> 1
     = Some (Inr \<lparr>digits = 125, scale = 1\<rparr>)"
proof -
  have r: "Rational_invariant \<lparr>numerator = 1, denominator = 8\<rparr>"
    by (simp add: Rational_invariant_def)
  have s: "(0::int) \<le> 1" by simp
  from Rational_toDecimal_scale [OF r s] obtain d
    where d: "Rational_toDecimal \<lparr>numerator = 1, denominator = 8\<rparr> 1 = Some (Inr d)" "scale d = 1"
    by blast
  have "Rational_toDecimal \<lparr>numerator = 1, denominator = 8\<rparr> 1
     = Some (Inr \<lparr>digits = 125, scale = 1\<rparr>)"
    by code_simp
  with r s d show ?thesis by simp
qed

section \<open>From a Decimal to a Rational and back\<close>

text \<open>
  Claim C1.  The conversion of a Decimal to a Rational and back at its own scale is
  not always equal to the Decimal.  For digits 10 and scale 1 (the value 1.0) the
  Rational is 10/10; the division leaves no remainder, so the loop takes no step and
  the result has digits 1 with the scale 1 (the value 0.1), and \<open>equalTo\<close> is false.
\<close>

theorem roundtrip_trailing_zero:
  "Decimal_constructor 10 1 = Inr \<lparr>digits = 10, scale = 1\<rparr> \<and>
   Decimal_toRational \<lparr>digits = 10, scale = 1\<rparr>
     = Inr \<lparr>numerator = 10, denominator = 10\<rparr> \<and>
   Rational_toDecimal \<lparr>numerator = 10, denominator = 10\<rparr> 1
     = Some (Inr \<lparr>digits = 1, scale = 1\<rparr>) \<and>
   roundtrip \<lparr>digits = 10, scale = 1\<rparr> = Some (Inr False)"
  by code_simp

section \<open>The text of a Decimal\<close>

text \<open>
  Claim C4.  The two examples of the claim hold, digits 5 with scale 2 giving
  \<open>0.05\<close> and digits \<open>-5\<close> with scale 0 giving \<open>-5\<close>.  For digits \<open>-5\<close> with
  scale 2 the loop takes the minus sign for a digit and the text is \<open>0.-5\<close>, which
  \<open>fromString\<close> rejects.
\<close>

theorem Decimal_toString_negative_fraction:
  "Decimal_toString \<lparr>digits = - 5, scale = 2\<rparr> = ''0.-5'' \<and>
   Decimal_fromString ''0.-5'' = Inl (SyntaxError ''0-5'') \<and>
   Decimal_toString \<lparr>digits = 5, scale = 2\<rparr> = ''0.05'' \<and>
   Decimal_toString \<lparr>digits = - 5, scale = 0\<rparr> = ''-5''"
  by code_simp

end
